theory Spec2Isabelle
  imports Main "HOL-Library.Word"
begin

section \<open>The Interpreter example: expression trees and their parser\<close>

text \<open>
  This theory embeds \<^verbatim>\<open>src/behavioural/interpreter.cpp\<close>: the three expression
  classes with their \<^verbatim>\<open>interpret()\<close> methods, and the function \<^verbatim>\<open>parse\<close>
  that reads an expression from a \<^verbatim>\<open>std::istringstream\<close> and builds the tree.
\<close>

subsection \<open>Data model\<close>

text \<open>
  The C++ \<^verbatim>\<open>int\<close> is a 32-bit two's complement value: \<open>+\<close> and \<open>-\<close> on
  \<open>cint\<close> wrap around, \<open>sint\<close> reads the signed value.
\<close>

type_synonym cint = "32 word"

text \<open>
  The undefined behaviours the C++ text could run into: calling a method through a null
  \<^verbatim>\<open>unique_ptr\<close>, and indexing a \<^verbatim>\<open>vector\<close> outside its size.
\<close>

datatype fault = NullDereference | IndexOutOfRange

text \<open>
  A \<^verbatim>\<open>unique_ptr<Expression>\<close> either owns an expression or is null: it is an
  \<open>Expression option\<close>. The three classes derived from \<^verbatim>\<open>Expression\<close> are the three
  constructors; \<^verbatim>\<open>AddExpression\<close> and \<^verbatim>\<open>SubtractExpression\<close> hold the
  members \<^verbatim>\<open>left\<close> and \<^verbatim>\<open>right\<close>.
\<close>

datatype Expression =
    NumberExpression cint
  | AddExpression "Expression option" "Expression option"
  | SubtractExpression "Expression option" "Expression option"

text \<open>
  \<^verbatim>\<open>interpret()\<close> (here \<open>interpret_expr\<close>: the bare name is a
  command of the proof language), one equation per override. \<^verbatim>\<open>left->interpret()\<close> through a
  null pointer is the fault \<open>NullDereference\<close>.
\<close>

fun interpret_expr :: "Expression \<Rightarrow> fault + cint" where
  "interpret_expr (NumberExpression number) = Inr number"
| "interpret_expr (AddExpression left right) =
     (case left of
        None \<Rightarrow> Inl NullDereference
      | Some l \<Rightarrow>
          (case interpret_expr l of
             Inl f \<Rightarrow> Inl f
           | Inr a \<Rightarrow>
               (case right of
                  None \<Rightarrow> Inl NullDereference
                | Some r \<Rightarrow>
                    (case interpret_expr r of
                       Inl f \<Rightarrow> Inl f
                     | Inr b \<Rightarrow> Inr (a + b)))))"
| "interpret_expr (SubtractExpression left right) =
     (case left of
        None \<Rightarrow> Inl NullDereference
      | Some l \<Rightarrow>
          (case interpret_expr l of
             Inl f \<Rightarrow> Inl f
           | Inr a \<Rightarrow>
               (case right of
                  None \<Rightarrow> Inl NullDereference
                | Some r \<Rightarrow>
                    (case interpret_expr r of
                       Inl f \<Rightarrow> Inl f
                     | Inr b \<Rightarrow> Inr (a - b)))))"

text \<open>\<^verbatim>\<open>tree->interpret()\<close> on a \<^verbatim>\<open>unique_ptr\<close>, as \<^verbatim>\<open>main\<close> calls it.\<close>

definition interpret_ptr :: "Expression option \<Rightarrow> fault + cint" where
  "interpret_ptr p = (case p of None \<Rightarrow> Inl NullDereference | Some e \<Rightarrow> interpret_expr e)"

subsection \<open>The input stream\<close>

text \<open>
  The part of \<^verbatim>\<open>std::istringstream\<close> that \<^verbatim>\<open>parse\<close> uses: the characters not
  yet read and the state bits \<^verbatim>\<open>eofbit\<close> and \<^verbatim>\<open>failbit\<close> (a string stream never
  sets \<^verbatim>\<open>badbit\<close>). The flags are the defaults, \<^verbatim>\<open>skipws | dec\<close>, and the locale
  is the classic one.
\<close>

record istream =
  buf :: string
  eofbit :: bool
  failbit :: bool

definition good :: "istream \<Rightarrow> bool" where
  "good s = (\<not> eofbit s \<and> \<not> failbit s)"

definition isspace :: "char \<Rightarrow> bool" where
  "isspace c = (let k = (of_char c :: nat) in k = 32 \<or> (9 \<le> k \<and> k \<le> 13))"

definition isdigit :: "char \<Rightarrow> bool" where
  "isdigit c = (let k = (of_char c :: nat) in 48 \<le> k \<and> k \<le> 57)"

text \<open>
  The \<^verbatim>\<open>sentry\<close> that every formatted extraction constructs first. On a stream
  that is not good it sets \<^verbatim>\<open>failbit\<close>. Otherwise it skips whitespace, and when that
  reaches the end of the input it sets \<^verbatim>\<open>eofbit\<close> and \<^verbatim>\<open>failbit\<close>. The
  extraction goes on only when the sentry is true.
\<close>

definition sentry :: "istream \<Rightarrow> bool \<times> istream" where
  "sentry s =
     (if good s then
        (let r = dropWhile isspace (buf s) in
         if r = [] then (False, s\<lparr>buf := [], eofbit := True, failbit := True\<rparr>)
         else (True, s\<lparr>buf := r\<rparr>))
      else (False, s\<lparr>failbit := True\<rparr>))"

text \<open>
  \<^verbatim>\<open>iss >> op\<close> for a \<^verbatim>\<open>char\<close>: the next character that is not whitespace.
  The result is \<open>None\<close> when nothing is extracted; then \<^verbatim>\<open>op\<close> is not assigned,
  \<^verbatim>\<open>failbit\<close> is set and the stream converts to \<^verbatim>\<open>false\<close>.
\<close>

definition get_char :: "istream \<Rightarrow> char option \<times> istream" where
  "get_char s =
     (case sentry s of
        (False, s1) \<Rightarrow> (None, s1)
      | (True, s1) \<Rightarrow>
          (case buf s1 of
             [] \<Rightarrow> (None, s1\<lparr>eofbit := True, failbit := True\<rparr>)
           | c # r \<Rightarrow> (Some c, s1\<lparr>buf := r\<rparr>)))"

definition digit_value :: "char \<Rightarrow> int" where
  "digit_value c = int (of_char c) - 48"

definition digits_value :: "string \<Rightarrow> int" where
  "digits_value ds = foldl (\<lambda>a c. 10 * a + digit_value c) 0 ds"

definition INT_MIN :: int where
  "INT_MIN = - (2 ^ 31)"

definition INT_MAX :: int where
  "INT_MAX = 2 ^ 31 - 1"

text \<open>
  The conversion \<^verbatim>\<open>num_get::get\<close> behind \<^verbatim>\<open>iss >> num\<close>, in base ten: an optional
  sign, then digits as long as there are digits. With no digit the value is 0 and
  \<^verbatim>\<open>failbit\<close> is set (C++11); a value outside the range of \<^verbatim>\<open>int\<close> becomes the
  nearest bound and \<^verbatim>\<open>failbit\<close> is set; \<^verbatim>\<open>eofbit\<close> is set when the scan stopped
  at the end of the input.
\<close>

definition num_get :: "istream \<Rightarrow> cint \<times> istream" where
  "num_get s =
     (let (neg, r0) =
            (case buf s of
               [] \<Rightarrow> (False, [])
             | c # r \<Rightarrow>
                 if c = CHR ''-'' then (True, r)
                 else if c = CHR ''+'' then (False, r)
                 else (False, c # r));
          ds = takeWhile isdigit r0;
          r = dropWhile isdigit r0;
          s1 = s\<lparr>buf := r, eofbit := (eofbit s \<or> r = [])\<rparr>
      in if ds = [] then (0, s1\<lparr>failbit := True\<rparr>)
         else
           (let v = (if neg then - digits_value ds else digits_value ds) in
            if v < INT_MIN then (word_of_int INT_MIN, s1\<lparr>failbit := True\<rparr>)
            else if INT_MAX < v then (word_of_int INT_MAX, s1\<lparr>failbit := True\<rparr>)
            else (word_of_int v, s1)))"

text \<open>
  \<^verbatim>\<open>iss >> num\<close> for an \<^verbatim>\<open>int\<close>. When the sentry is false the conversion is not
  called and \<^verbatim>\<open>num\<close> keeps the value it had.
\<close>

definition extract_int :: "istream \<Rightarrow> cint \<Rightarrow> cint \<times> istream" where
  "extract_int s num =
     (case sentry s of
        (False, s1) \<Rightarrow> (num, s1)
      | (True, s1) \<Rightarrow> num_get s1)"

subsection \<open>The parser\<close>

text \<open>
  The reading loop of \<^verbatim>\<open>parse\<close>:
  \<^verbatim>\<open>while (iss >> op) { ops.push_back(op); iss >> num; terms.push_back(...); }\<close>
  with the stream, \<^verbatim>\<open>num\<close>, \<^verbatim>\<open>ops\<close> and \<^verbatim>\<open>terms\<close> as its state.
\<close>

function read_loop ::
  "istream \<Rightarrow> cint \<Rightarrow> char list \<Rightarrow> Expression option list
     \<Rightarrow> char list \<times> Expression option list" where
  "read_loop iss num ops terms =
     (case get_char iss of
        (None, iss1) \<Rightarrow> (ops, terms)
      | (Some op, iss1) \<Rightarrow>
          (case extract_int iss1 num of
             (num', iss2) \<Rightarrow>
               read_loop iss2 num' (ops @ [op]) (terms @ [Some (NumberExpression num')])))"
  by pat_completeness auto
termination
proof (relation "measure (\<lambda>(iss, num, ops, terms). length (buf iss))")
  show "wf (measure (\<lambda>(iss, num, ops, terms). length (buf iss)))"
    by simp
next
  fix iss :: istream and num :: cint and ops :: "char list"
    and terms :: "Expression option list"
    and x iss1 op y num' iss2
  assume g: "(x, iss1) = get_char iss" and x: "x = Some op"
    and e: "(num', iss2) = extract_int iss1 num"
  have sentry_le: "length (buf (snd (sentry s))) \<le> length (buf s)" for s
    by (simp add: sentry_def Let_def length_dropWhile_le)
  have drop_le: "length (dropWhile isdigit r) \<le> length r" for r
    by (rule length_dropWhile_le)
  have drop_le_Suc: "length (dropWhile isdigit r) \<le> Suc (length r)" for r
    using length_dropWhile_le [of isdigit r] by simp
  have num_get_le: "length (buf (snd (num_get s))) \<le> length (buf s)" for s
    using drop_le drop_le_Suc
    by (simp add: num_get_def Let_def split: list.splits prod.splits)
  have "length (buf (snd (extract_int iss1 num))) \<le> length (buf iss1)"
  proof (cases "sentry iss1")
    case (Pair ok s1)
    then show ?thesis
      using sentry_le [of iss1] num_get_le [of s1]
      by (cases ok) (simp_all add: extract_int_def)
  qed
  with e have "length (buf iss2) \<le> length (buf iss1)"
    by (metis snd_conv)
  moreover from g x have "length (buf iss1) < length (buf iss)"
    using sentry_le [of iss]
    by (auto simp: get_char_def split: prod.splits bool.splits list.splits)
  ultimately show
    "((iss2, num', ops @ [op], terms @ [Some (NumberExpression num')]), iss, num, ops, terms)
       \<in> measure (\<lambda>(iss, num, ops, terms). length (buf iss))"
    by simp
qed

declare read_loop.simps [simp del]

text \<open>
  \<^verbatim>\<open>move(terms[k])\<close>: the pointer stored at index \<open>k\<close>, which the vector gives up
  (the element left behind is null). Outside the vector there is nothing to move.
\<close>

definition move_at ::
  "Expression option list \<Rightarrow> nat \<Rightarrow> (Expression option \<times> Expression option list) option" where
  "move_at terms k =
     (if k < length terms then Some (terms ! k, terms[k := None]) else None)"

text \<open>
  The tree-building loop \<^verbatim>\<open>for (size_t i = 0; i < ops.size(); ++i)\<close>, from index
  \<open>i\<close> on: \<^verbatim>\<open>'+'\<close> and \<^verbatim>\<open>'-'\<close> wrap \<^verbatim>\<open>result\<close> and
  \<^verbatim>\<open>terms[i + 1]\<close> in a new node, any other character changes nothing.
\<close>

function build_loop ::
  "nat \<Rightarrow> char list \<Rightarrow> Expression option list \<Rightarrow> Expression option
     \<Rightarrow> fault + Expression option" where
  "build_loop i ops terms result =
     (if i < length ops then
        (if ops ! i = CHR ''+'' then
           (case move_at terms (i + 1) of
              None \<Rightarrow> Inl IndexOutOfRange
            | Some (t, terms') \<Rightarrow>
                build_loop (i + 1) ops terms' (Some (AddExpression result t)))
         else if ops ! i = CHR ''-'' then
           (case move_at terms (i + 1) of
              None \<Rightarrow> Inl IndexOutOfRange
            | Some (t, terms') \<Rightarrow>
                build_loop (i + 1) ops terms' (Some (SubtractExpression result t)))
         else build_loop (i + 1) ops terms result)
      else Inr result)"
  by pat_completeness auto
termination
  by (relation "measure (\<lambda>(i, ops, terms, result). length ops - i)") auto

declare build_loop.simps [simp del]

text \<open>
  One round of the loop body as a function of \<^verbatim>\<open>result\<close>, \<^verbatim>\<open>ops[i]\<close> and
  \<^verbatim>\<open>terms[i + 1]\<close>.
\<close>

definition attach :: "Expression option \<Rightarrow> char \<times> Expression option \<Rightarrow> Expression option" where
  "attach result x =
     (case x of (op, t) \<Rightarrow>
        if op = CHR ''+'' then Some (AddExpression result t)
        else if op = CHR ''-'' then Some (SubtractExpression result t)
        else result)"

text \<open>An operator with the number read after it, as the loop body meets them.\<close>

definition lift_item :: "char \<times> cint \<Rightarrow> char \<times> Expression option" where
  "lift_item x = (fst x, Some (NumberExpression (snd x)))"

text \<open>
  \<^verbatim>\<open>parse\<close>. The local \<^verbatim>\<open>int num;\<close> has no initialiser, so the value it holds
  before the first extraction that assigns it is not determined by the program text: it
  is the parameter \<open>num_init\<close>.
\<close>

definition parse :: "cint \<Rightarrow> string \<Rightarrow> fault + Expression option" where
  "parse num_init expr =
     (let iss = \<lparr>buf = expr, eofbit = False, failbit = False\<rparr> in
      case extract_int iss num_init of
        (num, iss1) \<Rightarrow>
          (case read_loop iss1 num [] [Some (NumberExpression num)] of
             (ops, terms) \<Rightarrow>
               (case move_at terms 0 of
                  None \<Rightarrow> Inl IndexOutOfRange
                | Some (result, terms') \<Rightarrow> build_loop 0 ops terms' result)))"

text \<open>Parsing, then evaluating the tree: what \<^verbatim>\<open>main\<close> prints for an input.\<close>

definition parse_interpret :: "cint \<Rightarrow> string \<Rightarrow> fault + cint" where
  "parse_interpret num_init expr =
     (case parse num_init expr of Inl f \<Rightarrow> Inl f | Inr tree \<Rightarrow> interpret_ptr tree)"

subsection \<open>Evaluation with the receiver made explicit\<close>

text \<open>
  The same three methods with the object they are called on passed along: a call returns
  its result together with the object as the call leaves it. A node reaches its children
  through \<^verbatim>\<open>unique_ptr\<close> members, whose pointees a \<^verbatim>\<open>const\<close> method could
  still change, so the children as their calls leave them are put back into the node.
\<close>

fun interpret_st :: "Expression \<Rightarrow> (fault + cint) \<times> Expression" where
  "interpret_st (NumberExpression number) = (Inr number, NumberExpression number)"
| "interpret_st (AddExpression left right) =
     (case left of
        None \<Rightarrow> (Inl NullDereference, AddExpression left right)
      | Some l \<Rightarrow>
          (case interpret_st l of
             (Inl f, l') \<Rightarrow> (Inl f, AddExpression (Some l') right)
           | (Inr a, l') \<Rightarrow>
               (case right of
                  None \<Rightarrow> (Inl NullDereference, AddExpression (Some l') right)
                | Some r \<Rightarrow>
                    (case interpret_st r of
                       (Inl f, r') \<Rightarrow> (Inl f, AddExpression (Some l') (Some r'))
                     | (Inr b, r') \<Rightarrow> (Inr (a + b), AddExpression (Some l') (Some r'))))))"
| "interpret_st (SubtractExpression left right) =
     (case left of
        None \<Rightarrow> (Inl NullDereference, SubtractExpression left right)
      | Some l \<Rightarrow>
          (case interpret_st l of
             (Inl f, l') \<Rightarrow> (Inl f, SubtractExpression (Some l') right)
           | (Inr a, l') \<Rightarrow>
               (case right of
                  None \<Rightarrow> (Inl NullDereference, SubtractExpression (Some l') right)
                | Some r \<Rightarrow>
                    (case interpret_st r of
                       (Inl f, r') \<Rightarrow> (Inl f, SubtractExpression (Some l') (Some r'))
                     | (Inr b, r') \<Rightarrow>
                         (Inr (a - b), SubtractExpression (Some l') (Some r'))))))"

text \<open>\<open>k\<close> calls in a row on one tree, each on the tree as the call before left it.\<close>

fun interpret_repeat :: "nat \<Rightarrow> Expression \<Rightarrow> (fault + cint) list \<times> Expression" where
  "interpret_repeat 0 e = ([], e)"
| "interpret_repeat (Suc k) e =
     (case interpret_st e of
        (v, e') \<Rightarrow> (case interpret_repeat k e' of (vs, e'') \<Rightarrow> (v # vs, e'')))"

text \<open>
  The methods once more, with a bound \<open>d\<close> on how deep the calls may nest: \<open>None\<close>
  when a call would have to nest deeper than the bound.
\<close>

fun interpret_within :: "nat \<Rightarrow> Expression \<Rightarrow> (fault + cint) option" where
  "interpret_within 0 e = None"
| "interpret_within (Suc d) (NumberExpression number) = Some (Inr number)"
| "interpret_within (Suc d) (AddExpression left right) =
     (case left of
        None \<Rightarrow> Some (Inl NullDereference)
      | Some l \<Rightarrow>
          (case interpret_within d l of
             None \<Rightarrow> None
           | Some (Inl f) \<Rightarrow> Some (Inl f)
           | Some (Inr a) \<Rightarrow>
               (case right of
                  None \<Rightarrow> Some (Inl NullDereference)
                | Some r \<Rightarrow>
                    (case interpret_within d r of
                       None \<Rightarrow> None
                     | Some (Inl f) \<Rightarrow> Some (Inl f)
                     | Some (Inr b) \<Rightarrow> Some (Inr (a + b))))))"
| "interpret_within (Suc d) (SubtractExpression left right) =
     (case left of
        None \<Rightarrow> Some (Inl NullDereference)
      | Some l \<Rightarrow>
          (case interpret_within d l of
             None \<Rightarrow> None
           | Some (Inl f) \<Rightarrow> Some (Inl f)
           | Some (Inr a) \<Rightarrow>
               (case right of
                  None \<Rightarrow> Some (Inl NullDereference)
                | Some r \<Rightarrow>
                    (case interpret_within d r of
                       None \<Rightarrow> None
                     | Some (Inl f) \<Rightarrow> Some (Inl f)
                     | Some (Inr b) \<Rightarrow> Some (Inr (a - b))))))"

subsection \<open>Observations on trees\<close>

text \<open>The depth of a tree, counted in nodes; a null pointer has depth 0.\<close>

fun height :: "Expression \<Rightarrow> nat" where
  "height (NumberExpression n) = 1"
| "height (AddExpression l r) =
     1 + max (case l of None \<Rightarrow> 0 | Some a \<Rightarrow> height a)
             (case r of None \<Rightarrow> 0 | Some b \<Rightarrow> height b)"
| "height (SubtractExpression l r) =
     1 + max (case l of None \<Rightarrow> 0 | Some a \<Rightarrow> height a)
             (case r of None \<Rightarrow> 0 | Some b \<Rightarrow> height b)"

text \<open>No node of the tree has a null child.\<close>

fun no_null :: "Expression \<Rightarrow> bool" where
  "no_null (NumberExpression n) = True"
| "no_null (AddExpression l r) =
     ((case l of None \<Rightarrow> False | Some a \<Rightarrow> no_null a)
      \<and> (case r of None \<Rightarrow> False | Some b \<Rightarrow> no_null b))"
| "no_null (SubtractExpression l r) =
     ((case l of None \<Rightarrow> False | Some a \<Rightarrow> no_null a)
      \<and> (case r of None \<Rightarrow> False | Some b \<Rightarrow> no_null b))"

text \<open>The number of \<^verbatim>\<open>NumberExpression\<close> leaves and of internal nodes.\<close>

fun count_leaves :: "Expression \<Rightarrow> nat" where
  "count_leaves (NumberExpression n) = 1"
| "count_leaves (AddExpression l r) =
     (case l of None \<Rightarrow> 0 | Some a \<Rightarrow> count_leaves a)
     + (case r of None \<Rightarrow> 0 | Some b \<Rightarrow> count_leaves b)"
| "count_leaves (SubtractExpression l r) =
     (case l of None \<Rightarrow> 0 | Some a \<Rightarrow> count_leaves a)
     + (case r of None \<Rightarrow> 0 | Some b \<Rightarrow> count_leaves b)"

fun count_internal :: "Expression \<Rightarrow> nat" where
  "count_internal (NumberExpression n) = 0"
| "count_internal (AddExpression l r) =
     1 + (case l of None \<Rightarrow> 0 | Some a \<Rightarrow> count_internal a)
       + (case r of None \<Rightarrow> 0 | Some b \<Rightarrow> count_internal b)"
| "count_internal (SubtractExpression l r) =
     1 + (case l of None \<Rightarrow> 0 | Some a \<Rightarrow> count_internal a)
       + (case r of None \<Rightarrow> 0 | Some b \<Rightarrow> count_internal b)"

text \<open>
  A strictly left-associative tree: the right child of every internal node is a number
  leaf, and its left child is again such a tree.
\<close>

fun left_assoc :: "Expression \<Rightarrow> bool" where
  "left_assoc (NumberExpression n) = True"
| "left_assoc (AddExpression l r) =
     ((case l of None \<Rightarrow> False | Some a \<Rightarrow> left_assoc a)
      \<and> (case r of Some (NumberExpression n) \<Rightarrow> True | _ \<Rightarrow> False))"
| "left_assoc (SubtractExpression l r) =
     ((case l of None \<Rightarrow> False | Some a \<Rightarrow> left_assoc a)
      \<and> (case r of Some (NumberExpression n) \<Rightarrow> True | _ \<Rightarrow> False))"

text \<open>The numbers at the leaves, from left to right.\<close>

fun operands :: "Expression \<Rightarrow> cint list" where
  "operands (NumberExpression n) = [n]"
| "operands (AddExpression l r) =
     (case l of None \<Rightarrow> [] | Some a \<Rightarrow> operands a)
     @ (case r of None \<Rightarrow> [] | Some b \<Rightarrow> operands b)"
| "operands (SubtractExpression l r) =
     (case l of None \<Rightarrow> [] | Some a \<Rightarrow> operands a)
     @ (case r of None \<Rightarrow> [] | Some b \<Rightarrow> operands b)"

subsection \<open>Input strings of the grammar\<close>

text \<open>
  A number token is an optional sign followed by at least one digit, with a value that an
  \<^verbatim>\<open>int\<close> can hold.
\<close>

definition int_literal :: "string \<Rightarrow> bool" where
  "int_literal t =
     (case t of
        [] \<Rightarrow> False
      | c # ds \<Rightarrow>
          if c = CHR ''-'' \<or> c = CHR ''+'' then ds \<noteq> [] \<and> list_all isdigit ds
          else list_all isdigit (c # ds))"

definition literal_value :: "string \<Rightarrow> int" where
  "literal_value t =
     (case t of
        [] \<Rightarrow> 0
      | c # ds \<Rightarrow>
          if c = CHR ''-'' then - digits_value ds
          else if c = CHR ''+'' then digits_value ds
          else digits_value (c # ds))"

definition in_int_range :: "int \<Rightarrow> bool" where
  "in_int_range v = (INT_MIN \<le> v \<and> v \<le> INT_MAX)"

definition number_token :: "string \<Rightarrow> bool" where
  "number_token t = (int_literal t \<and> in_int_range (literal_value t))"

definition literal_cint :: "string \<Rightarrow> cint" where
  "literal_cint t = word_of_int (literal_value t)"

definition whitespace :: "string \<Rightarrow> bool" where
  "whitespace w = list_all isspace w"

text \<open>
  An input is written down as: whitespace, a number token, then for each further position
  whitespace, one character in the place of the operator, whitespace and a number token,
  and whitespace at the end. Each whitespace may be empty.
\<close>

type_synonym op_item = "string \<times> char \<times> string \<times> string"

definition render_item :: "op_item \<Rightarrow> string" where
  "render_item item = (case item of (w1, op, w2, t) \<Rightarrow> w1 @ [op] @ w2 @ t)"

definition render :: "string \<Rightarrow> string \<Rightarrow> op_item list \<Rightarrow> string \<Rightarrow> string" where
  "render w0 t0 items wend = w0 @ t0 @ concat (map render_item items) @ wend"

text \<open>
  The character in the place of an operator may be any character that is neither
  whitespace nor a digit.
\<close>

definition op_char :: "char \<Rightarrow> bool" where
  "op_char c = (\<not> isspace c \<and> \<not> isdigit c)"

definition item_ok :: "op_item \<Rightarrow> bool" where
  "item_ok item =
     (case item of (w1, op, w2, t) \<Rightarrow>
        whitespace w1 \<and> op_char op \<and> whitespace w2 \<and> number_token t)"

definition tokenised :: "string \<Rightarrow> string \<Rightarrow> op_item list \<Rightarrow> string \<Rightarrow> bool" where
  "tokenised w0 t0 items wend =
     (whitespace w0 \<and> number_token t0 \<and> list_all item_ok items \<and> whitespace wend)"

definition plus_or_minus :: "op_item \<Rightarrow> bool" where
  "plus_or_minus item =
     (case item of (w1, op, w2, t) \<Rightarrow> op = CHR ''+'' \<or> op = CHR ''-'')"

text \<open>
  The well-formed inputs \<^verbatim>\<open>NUMBER (('+'|'-') NUMBER)*\<close>: every operator is
  \<^verbatim>\<open>'+'\<close> or \<^verbatim>\<open>'-'\<close>.
\<close>

definition well_formed :: "string \<Rightarrow> string \<Rightarrow> op_item list \<Rightarrow> string \<Rightarrow> bool" where
  "well_formed w0 t0 items wend =
     (tokenised w0 t0 items wend \<and> list_all plus_or_minus items)"

text \<open>
  A character that is not whitespace and cannot begin a number, and the number token
  that an input ends with.
\<close>

definition not_numeric :: "char \<Rightarrow> bool" where
  "not_numeric c = (\<not> isspace c \<and> \<not> isdigit c \<and> c \<noteq> CHR ''-'' \<and> c \<noteq> CHR ''+'')"

definition last_token :: "string \<Rightarrow> op_item list \<Rightarrow> string" where
  "last_token t0 items = last (t0 # map (\<lambda>item. case item of (w1, op, w2, t) \<Rightarrow> t) items)"

text \<open>The operators of an input with the numbers that follow them.\<close>

definition operations :: "op_item list \<Rightarrow> (char \<times> cint) list" where
  "operations items = map (\<lambda>item. case item of (w1, op, w2, t) \<Rightarrow> (op, literal_cint t)) items"

definition int_operations :: "op_item list \<Rightarrow> (char \<times> int) list" where
  "int_operations items =
     map (\<lambda>item. case item of (w1, op, w2, t) \<Rightarrow> (op, literal_value t)) items"

subsection \<open>What the specification expects of a parse\<close>

text \<open>
  The accumulator of the specification: each operator with its number wraps the tree so
  far, as its left child, in an addition or a subtraction node.
\<close>

definition wrap :: "Expression \<Rightarrow> char \<times> cint \<Rightarrow> Expression" where
  "wrap acc x =
     (case x of (op, n) \<Rightarrow>
        if op = CHR ''+'' then AddExpression (Some acc) (Some (NumberExpression n))
        else SubtractExpression (Some acc) (Some (NumberExpression n)))"

definition left_tree :: "cint \<Rightarrow> (char \<times> cint) list \<Rightarrow> Expression" where
  "left_tree n0 xs = foldl wrap (NumberExpression n0) xs"

text \<open>
  The left-to-right fold \<open>((N0 op1 N1) op2 N2) ...\<close>, in the arithmetic of
  \<^verbatim>\<open>int\<close> and in the integers.
\<close>

definition apply_op :: "cint \<Rightarrow> char \<times> cint \<Rightarrow> cint" where
  "apply_op a x = (case x of (op, n) \<Rightarrow> if op = CHR ''+'' then a + n else a - n)"

definition left_fold :: "cint \<Rightarrow> (char \<times> cint) list \<Rightarrow> cint" where
  "left_fold n0 xs = foldl apply_op n0 xs"

definition int_apply_op :: "int \<Rightarrow> char \<times> int \<Rightarrow> int" where
  "int_apply_op a x = (case x of (op, n) \<Rightarrow> if op = CHR ''+'' then a + n else a - n)"

definition int_left_fold :: "int \<Rightarrow> (char \<times> int) list \<Rightarrow> int" where
  "int_left_fold n0 xs = foldl int_apply_op n0 xs"

text \<open>Every partial result of the fold in the integers fits an \<^verbatim>\<open>int\<close>.\<close>

fun no_overflow :: "int \<Rightarrow> (char \<times> int) list \<Rightarrow> bool" where
  "no_overflow a [] = in_int_range a"
| "no_overflow a (x # xs) = (in_int_range a \<and> no_overflow (int_apply_op a x) xs)"

section \<open>Properties\<close>

subsection \<open>Evaluation\<close>

lemma interpret_st_eq: "interpret_st e = (interpret_expr e, e)"
  by (induction e) (auto split: option.splits sum.splits)

lemma interpret_repeat_eq: "interpret_repeat k e = (replicate k (interpret_expr e), e)"
  by (induction k) (simp_all add: interpret_st_eq)

lemma no_null_interpret: "no_null e \<Longrightarrow> \<exists>v. interpret_expr e = Inr v"
  by (induction e) (auto split: option.splits sum.splits)

lemma interpret_within_height:
  "height e \<le> d \<Longrightarrow> interpret_within d e = Some (interpret_expr e)"
proof (induction d e rule: interpret_within.induct)
  case (1 e)
  then show ?case by (cases e) simp_all
next
  case (2 d number)
  then show ?case by simp
next
  case (3 d left right)
  then show ?case
    by (auto split: option.splits sum.splits)
next
  case (4 d left right)
  then show ?case
    by (auto split: option.splits sum.splits)
qed

subsection \<open>The two loops of the parser\<close>

lemma build_loop_foldl:
  "i \<le> length ops \<Longrightarrow> length terms = length ops + 1 \<Longrightarrow>
   build_loop i ops terms result
     = Inr (foldl attach result (zip (drop i ops) (drop (i + 1) terms)))"
proof (induction i ops terms result rule: build_loop.induct)
  case (1 i ops terms result)
  show ?case
  proof (cases "i < length ops")
    case False
    then show ?thesis
      by (subst build_loop.simps) simp
  next
    case True
    let ?t = "terms ! (i + 1)"
    from True "1.prems" have lt: "i + 1 < length terms" by simp
    have dops: "drop i ops = ops ! i # drop (i + 1) ops"
      using True by (simp add: Cons_nth_drop_Suc)
    have dterms: "drop (i + 1) terms = ?t # drop (i + 2) terms"
      using lt by (metis Cons_nth_drop_Suc Suc_eq_plus1 add_2_eq_Suc')
    have dupd: "drop (i + 2) (terms[i + 1 := None]) = drop (i + 2) terms"
      by simp
    have mv: "move_at terms (i + 1) = Some (?t, terms[i + 1 := None])"
      using lt by (simp add: move_at_def)
    have step: "foldl attach result (zip (drop i ops) (drop (i + 1) terms))
        = foldl attach (attach result (ops ! i, ?t))
            (zip (drop (i + 1) ops) (drop (i + 2) terms))"
      unfolding dops dterms by simp
    show ?thesis
    proof (cases "ops ! i = CHR ''+''")
      case plus: True
      have "build_loop (i + 1) ops (terms[i + 1 := None]) (Some (AddExpression result ?t))
          = Inr (foldl attach (Some (AddExpression result ?t))
                  (zip (drop (i + 1) ops) (drop (i + 1 + 1) (terms[i + 1 := None]))))"
        using "1.IH"(1) [OF True plus mv [symmetric, THEN sym] refl] True "1.prems" by simp
      moreover have "attach result (ops ! i, ?t) = Some (AddExpression result ?t)"
        using plus by (simp add: attach_def)
      ultimately show ?thesis
        using True plus mv dupd step
        by (simp add: build_loop.simps [of i])
    next
      case notplus: False
      show ?thesis
      proof (cases "ops ! i = CHR ''-''")
        case minus: True
        have "build_loop (i + 1) ops (terms[i + 1 := None]) (Some (SubtractExpression result ?t))
            = Inr (foldl attach (Some (SubtractExpression result ?t))
                    (zip (drop (i + 1) ops) (drop (i + 1 + 1) (terms[i + 1 := None]))))"
          using "1.IH"(2) [OF True notplus minus mv [symmetric, THEN sym] refl] True "1.prems" by simp
        moreover have "attach result (ops ! i, ?t) = Some (SubtractExpression result ?t)"
          using notplus minus by (simp add: attach_def)
        ultimately show ?thesis
          using True notplus minus mv dupd step
          by (simp add: build_loop.simps [of i])
      next
        case other: False
        have "build_loop (i + 1) ops terms result
            = Inr (foldl attach result (zip (drop (i + 1) ops) (drop (i + 1 + 1) terms)))"
          using "1.IH"(3) [OF True notplus other] True "1.prems" by simp
        moreover have "attach result (ops ! i, ?t) = result"
          using notplus other by (simp add: attach_def)
        ultimately show ?thesis
          using True notplus other step
          by (simp add: build_loop.simps [of i])
      qed
    qed
  qed
qed

lemma read_loop_items:
  "\<exists>items. read_loop iss num ops terms
     = (ops @ map fst items, terms @ map (\<lambda>x. Some (NumberExpression (snd x))) items)"
proof (induction iss num ops terms rule: read_loop.induct)
  case (1 iss num ops terms)
  obtain x iss1 where g: "get_char iss = (x, iss1)"
    by (cases "get_char iss")
  show ?case
  proof (cases x)
    case None
    with g have "read_loop iss num ops terms = (ops, terms)"
      by (subst read_loop.simps) simp
    then have "read_loop iss num ops terms
        = (ops @ map fst [], terms @ map (\<lambda>x. Some (NumberExpression (snd x))) [])"
      by simp
    then show ?thesis by blast
  next
    case (Some op)
    obtain num' iss2 where e: "extract_int iss1 num = (num', iss2)"
      by (cases "extract_int iss1 num")
    from "1.IH" [OF g [symmetric] Some e [symmetric]]
    obtain items where
      "read_loop iss2 num' (ops @ [op]) (terms @ [Some (NumberExpression num')])
         = ((ops @ [op]) @ map fst items,
            (terms @ [Some (NumberExpression num')])
              @ map (\<lambda>x. Some (NumberExpression (snd x))) items)"
      by blast
    with g Some e have "read_loop iss num ops terms
        = (ops @ map fst ((op, num') # items),
           terms @ map (\<lambda>x. Some (NumberExpression (snd x))) ((op, num') # items))"
      by (subst read_loop.simps) simp
    then show ?thesis by blast
  qed
qed

lemma parse_from_read:
  assumes e: "extract_int \<lparr>buf = s, eofbit = False, failbit = False\<rparr> n = (num, iss1)"
    and r: "read_loop iss1 num [] [Some (NumberExpression num)]
      = (map fst xs, Some (NumberExpression num) # map (\<lambda>x. Some (NumberExpression (snd x))) xs)"
  shows "parse n s = Inr (foldl attach (Some (NumberExpression num)) (map lift_item xs))"
proof -
  let ?terms = "Some (NumberExpression num) # map (\<lambda>x. Some (NumberExpression (snd x))) xs"
  have mv: "move_at ?terms 0 = Some (Some (NumberExpression num), ?terms[0 := None])"
    by (simp add: move_at_def)
  have b: "build_loop 0 (map fst xs) (?terms[0 := None]) (Some (NumberExpression num))
      = Inr (foldl attach (Some (NumberExpression num))
               (zip (drop 0 (map fst xs)) (drop (0 + 1) (?terms[0 := None]))))"
    by (rule build_loop_foldl) simp_all
  have z: "zip (map fst xs) (map (\<lambda>x. Some (NumberExpression (snd x))) xs) = map lift_item xs"
    by (induction xs) (simp_all add: lift_item_def)
  show ?thesis
    using e r mv b z by (simp add: parse_def)
qed

lemma parse_foldl:
  "\<exists>n0 xs. parse n s = Inr (foldl attach (Some (NumberExpression n0)) (map lift_item xs))"
proof -
  let ?iss = "\<lparr>buf = s, eofbit = False, failbit = False\<rparr>"
  obtain num iss1 where e: "extract_int ?iss n = (num, iss1)"
    by (cases "extract_int ?iss n")
  obtain xs where "read_loop iss1 num [] [Some (NumberExpression num)]
      = ([] @ map fst xs,
         [Some (NumberExpression num)] @ map (\<lambda>x. Some (NumberExpression (snd x))) xs)"
    using read_loop_items by blast
  then have r: "read_loop iss1 num [] [Some (NumberExpression num)]
      = (map fst xs, Some (NumberExpression num) # map (\<lambda>x. Some (NumberExpression (snd x))) xs)"
    by simp
  from parse_from_read [OF e r] show ?thesis by blast
qed

subsection \<open>Reading the tokens of an input\<close>

lemma span_prefix:
  "list_all P ds \<Longrightarrow> r = [] \<or> \<not> P (hd r) \<Longrightarrow>
   takeWhile P (ds @ r) = ds \<and> dropWhile P (ds @ r) = r"
  by (induction ds) (cases r; auto)+

lemma isspace_not_isdigit: "isspace c \<Longrightarrow> \<not> isdigit c"
  by (auto simp: isspace_def isdigit_def Let_def)

lemma isdigit_not_sign: "isdigit c \<Longrightarrow> c \<noteq> CHR ''-'' \<and> c \<noteq> CHR ''+''"
  by (auto simp: isdigit_def Let_def)

lemma sign_not_isspace: "\<not> isspace CHR ''-'' \<and> \<not> isspace CHR ''+''"
  by (simp add: isspace_def Let_def)

lemma sign_not_isdigit: "\<not> isdigit CHR ''-'' \<and> \<not> isdigit CHR ''+''"
  by (simp add: isdigit_def Let_def)

lemma sentry_skip:
  assumes "whitespace w" and "\<not> isspace c"
  shows "sentry \<lparr>buf = w @ c # r, eofbit = False, failbit = False\<rparr>
           = (True, \<lparr>buf = c # r, eofbit = False, failbit = False\<rparr>)"
proof -
  have "dropWhile isspace (w @ c # r) = c # r"
    using assms span_prefix [of isspace w "c # r"] by (simp add: whitespace_def)
  then show ?thesis
    by (simp add: sentry_def good_def)
qed

lemma get_char_op:
  assumes "whitespace w" and "\<not> isspace c"
  shows "get_char \<lparr>buf = w @ c # r, eofbit = False, failbit = False\<rparr>
           = (Some c, \<lparr>buf = r, eofbit = False, failbit = False\<rparr>)"
  by (simp add: get_char_def sentry_skip [OF assms])

lemma number_token_hd:
  assumes "number_token t"
  shows "\<exists>c ds. t = c # ds \<and> \<not> isspace c"
proof (cases t)
  case Nil
  with assms show ?thesis by (simp add: number_token_def int_literal_def)
next
  case (Cons c ds)
  with assms have "c = CHR ''-'' \<or> c = CHR ''+'' \<or> isdigit c"
    by (auto simp: number_token_def int_literal_def split: if_splits)
  then have "\<not> isspace c"
    using sign_not_isspace isspace_not_isdigit by blast
  with Cons show ?thesis by simp
qed

lemma num_get_token:
  assumes t: "number_token t" and r: "r = [] \<or> \<not> isdigit (hd r)"
  shows "num_get \<lparr>buf = t @ r, eofbit = False, failbit = False\<rparr>
           = (literal_cint t, \<lparr>buf = r, eofbit = (r = []), failbit = False\<rparr>)"
proof -
  from t obtain c ds where tc: "t = c # ds"
    by (cases t) (simp_all add: number_token_def int_literal_def)
  from t have range: "\<not> literal_value t < INT_MIN" "\<not> INT_MAX < literal_value t"
    by (simp_all add: number_token_def in_int_range_def)
  show ?thesis
  proof (cases "c = CHR ''-'' \<or> c = CHR ''+''")
    case True
    with t tc have ds: "ds \<noteq> []" "list_all isdigit ds"
      by (simp_all add: number_token_def int_literal_def)
    from ds r have sp: "takeWhile isdigit (ds @ r) = ds" "dropWhile isdigit (ds @ r) = r"
      using span_prefix [of isdigit ds r] by simp_all
    from True show ?thesis
    proof
      assume c: "c = CHR ''-''"
      then have "literal_value t = - digits_value ds"
        by (simp add: tc literal_value_def)
      with range c ds sp show ?thesis
        by (simp add: num_get_def tc literal_cint_def del: dropWhile_eq_Nil_conv)
    next
      assume c: "c = CHR ''+''"
      then have "literal_value t = digits_value ds"
        by (simp add: tc literal_value_def)
      with range c ds sp show ?thesis
        by (simp add: num_get_def tc literal_cint_def del: dropWhile_eq_Nil_conv)
    qed
  next
    case False
    with t tc have ds: "list_all isdigit (c # ds)"
      by (simp add: number_token_def int_literal_def)
    from ds r have sp: "takeWhile isdigit ((c # ds) @ r) = c # ds"
        "dropWhile isdigit ((c # ds) @ r) = r"
      using span_prefix [of isdigit "c # ds" r] by simp_all
    from False have "literal_value t = digits_value (c # ds)"
      by (simp add: tc literal_value_def)
    with range False sp show ?thesis
      by (simp add: num_get_def tc literal_cint_def del: dropWhile_eq_Nil_conv)
  qed
qed

lemma extract_int_token:
  assumes w: "whitespace w" and t: "number_token t" and r: "r = [] \<or> \<not> isdigit (hd r)"
  shows "extract_int \<lparr>buf = w @ t @ r, eofbit = False, failbit = False\<rparr> num
           = (literal_cint t, \<lparr>buf = r, eofbit = (r = []), failbit = False\<rparr>)"
proof -
  from number_token_hd [OF t] obtain c ds where tc: "t = c # ds" and c: "\<not> isspace c"
    by blast
  have "sentry \<lparr>buf = w @ c # (ds @ r), eofbit = False, failbit = False\<rparr>
      = (True, \<lparr>buf = c # (ds @ r), eofbit = False, failbit = False\<rparr>)"
    by (rule sentry_skip [OF w c])
  moreover have "num_get \<lparr>buf = (c # ds) @ r, eofbit = False, failbit = False\<rparr>
      = (literal_cint (c # ds), \<lparr>buf = r, eofbit = (r = []), failbit = False\<rparr>)"
    using num_get_token [OF t r] by (simp add: tc)
  ultimately show ?thesis
    by (simp add: extract_int_def tc)
qed

lemma rest_no_digit:
  assumes "list_all item_ok items" and "tail = [] \<or> \<not> isdigit (hd tail)"
  shows "concat (map render_item items) @ tail = []
    \<or> \<not> isdigit (hd (concat (map render_item items) @ tail))"
proof (cases items)
  case Nil
  with assms(2) show ?thesis by simp
next
  case (Cons item rest)
  obtain w1 op w2 t where item: "item = (w1, op, w2, t)"
    by (cases item)
  with assms(1) Cons have "whitespace w1" "op_char op"
    by (simp_all add: item_ok_def)
  then have "\<not> isdigit (hd (w1 @ [op] @ w2 @ t @ concat (map render_item rest) @ tail))"
    by (cases w1) (simp_all add: whitespace_def isspace_not_isdigit op_char_def)
  with Cons item show ?thesis
    by (simp add: render_item_def)
qed

lemma whitespace_no_digit: "whitespace w \<Longrightarrow> w = [] \<or> \<not> isdigit (hd w)"
  by (cases w) (simp_all add: whitespace_def isspace_not_isdigit)

lemma read_loop_prefix:
  assumes "list_all item_ok items" and "tail = [] \<or> \<not> isdigit (hd tail)"
  shows "read_loop \<lparr>buf = concat (map render_item items) @ tail,
                    eofbit = (concat (map render_item items) @ tail = []),
                    failbit = False\<rparr> num ops terms
           = read_loop \<lparr>buf = tail, eofbit = (tail = []), failbit = False\<rparr>
               (last (num # map snd (operations items)))
               (ops @ map fst (operations items))
               (terms @ map (\<lambda>x. Some (NumberExpression (snd x))) (operations items))"
  using assms(1)
proof (induction items arbitrary: num ops terms)
  case Nil
  show ?case by (simp add: operations_def)
next
  case (Cons item rest)
  obtain w1 op w2 t where item: "item = (w1, op, w2, t)"
    by (cases item)
  let ?R = "concat (map render_item rest) @ tail"
  from Cons.prems have item_ok: "item_ok item" and rest: "list_all item_ok rest"
    by simp_all
  from item_ok item have ok: "whitespace w1" "op_char op" "whitespace w2" "number_token t"
    by (simp_all add: item_ok_def)
  have buf: "concat (map render_item (item # rest)) @ tail = w1 @ op # (w2 @ t @ ?R)"
    by (simp add: item render_item_def)
  have g: "get_char \<lparr>buf = w1 @ op # (w2 @ t @ ?R), eofbit = False, failbit = False\<rparr>
      = (Some op, \<lparr>buf = w2 @ t @ ?R, eofbit = False, failbit = False\<rparr>)"
    using ok by (intro get_char_op) (simp_all add: op_char_def)
  have e: "extract_int \<lparr>buf = w2 @ t @ ?R, eofbit = False, failbit = False\<rparr> num
      = (literal_cint t, \<lparr>buf = ?R, eofbit = (?R = []), failbit = False\<rparr>)"
    using ok rest_no_digit [OF rest assms(2)] by (intro extract_int_token)
  have "read_loop \<lparr>buf = concat (map render_item (item # rest)) @ tail,
                   eofbit = (concat (map render_item (item # rest)) @ tail = []),
                   failbit = False\<rparr> num ops terms
      = read_loop \<lparr>buf = ?R, eofbit = (?R = []), failbit = False\<rparr> (literal_cint t)
          (ops @ [op]) (terms @ [Some (NumberExpression (literal_cint t))])"
    unfolding buf by (subst read_loop.simps) (simp add: g e)
  also have "\<dots> = read_loop \<lparr>buf = tail, eofbit = (tail = []), failbit = False\<rparr>
      (last (literal_cint t # map snd (operations rest)))
      ((ops @ [op]) @ map fst (operations rest))
      ((terms @ [Some (NumberExpression (literal_cint t))])
        @ map (\<lambda>x. Some (NumberExpression (snd x))) (operations rest))"
    by (rule Cons.IH [OF rest])
  finally show ?case
    by (simp add: operations_def item)
qed

lemma read_loop_end:
  assumes "whitespace wend"
  shows "read_loop \<lparr>buf = wend, eofbit = (wend = []), failbit = False\<rparr> num ops terms
           = (ops, terms)"
proof -
  have "sentry \<lparr>buf = wend, eofbit = (wend = []), failbit = False\<rparr>
      = (False, \<lparr>buf = [], eofbit = True, failbit = True\<rparr>)"
  proof (cases "wend = []")
    case True
    then show ?thesis by (simp add: sentry_def good_def)
  next
    case False
    from assms have "dropWhile isspace wend = []"
      by (simp add: whitespace_def list_all_iff)
    with False show ?thesis by (simp add: sentry_def good_def)
  qed
  then have "get_char \<lparr>buf = wend, eofbit = (wend = []), failbit = False\<rparr>
      = (None, \<lparr>buf = [], eofbit = True, failbit = True\<rparr>)"
    by (simp add: get_char_def)
  then show ?thesis
    by (subst read_loop.simps) simp
qed

lemma read_loop_rendered:
  assumes "list_all item_ok items" and "whitespace wend"
  shows "read_loop \<lparr>buf = concat (map render_item items) @ wend,
                    eofbit = (concat (map render_item items) @ wend = []),
                    failbit = False\<rparr> num ops terms
           = (ops @ map fst (operations items),
              terms @ map (\<lambda>x. Some (NumberExpression (snd x))) (operations items))"
  using read_loop_prefix [OF assms(1) whitespace_no_digit [OF assms(2)]]
    read_loop_end [OF assms(2)]
  by simp

lemma parse_tokenised:
  assumes "tokenised w0 t0 items wend"
  shows "parse n (render w0 t0 items wend)
    = Inr (foldl attach (Some (NumberExpression (literal_cint t0)))
             (map lift_item (operations items)))"
proof -
  from assms have w0: "whitespace w0" and t0: "number_token t0"
      and items: "list_all item_ok items" and wend: "whitespace wend"
    by (simp_all add: tokenised_def)
  let ?R = "concat (map render_item items) @ wend"
  let ?xs = "operations items"
  let ?n0 = "literal_cint t0"
  have e: "extract_int \<lparr>buf = w0 @ t0 @ ?R, eofbit = False, failbit = False\<rparr> n
      = (?n0, \<lparr>buf = ?R, eofbit = (?R = []), failbit = False\<rparr>)"
    using w0 t0 rest_no_digit [OF items whitespace_no_digit [OF wend]]
    by (intro extract_int_token)
  have r: "read_loop \<lparr>buf = ?R, eofbit = (?R = []), failbit = False\<rparr> ?n0 []
        [Some (NumberExpression ?n0)]
      = (map fst ?xs, Some (NumberExpression ?n0) # map (\<lambda>x. Some (NumberExpression (snd x))) ?xs)"
    using read_loop_rendered [OF items wend, of ?n0 "[]" "[Some (NumberExpression ?n0)]"]
    by simp
  from parse_from_read [OF e r] show ?thesis
    by (simp add: render_def)
qed

subsection \<open>The tree of a tokenised input\<close>

lemma foldl_attach_wrap:
  "list_all (\<lambda>x. fst x = CHR ''+'' \<or> fst x = CHR ''-'') xs \<Longrightarrow>
   foldl attach (Some e) (map lift_item xs) = Some (foldl wrap e xs)"
  by (induction xs arbitrary: e) (auto simp: attach_def lift_item_def wrap_def split: prod.splits)

lemma foldl_attach_filter:
  "foldl attach p (map lift_item xs)
     = foldl attach p (map lift_item (filter (\<lambda>x. fst x = CHR ''+'' \<or> fst x = CHR ''-'') xs))"
  by (induction xs arbitrary: p) (auto simp: attach_def lift_item_def)

lemma foldl_attach_no_null:
  "no_null e \<Longrightarrow> \<exists>t. foldl attach (Some e) (map lift_item xs) = Some t \<and> no_null t"
proof (induction xs arbitrary: e)
  case Nil
  then show ?case by simp
next
  case (Cons x xs)
  have "\<exists>e'. attach (Some e) (lift_item x) = Some e' \<and> no_null e'"
    using Cons.prems by (simp add: attach_def lift_item_def)
  then obtain e' where e': "attach (Some e) (lift_item x) = Some e'" "no_null e'"
    by blast
  from Cons.IH [OF e'(2)] e'(1) show ?case by simp
qed

lemma operations_plus_or_minus:
  "list_all plus_or_minus items \<Longrightarrow>
   list_all (\<lambda>x. fst x = CHR ''+'' \<or> fst x = CHR ''-'') (operations items)"
  by (induction items) (auto simp: plus_or_minus_def operations_def)

lemma operations_filter:
  "filter (\<lambda>x. fst x = CHR ''+'' \<or> fst x = CHR ''-'') (operations items)
     = operations (filter plus_or_minus items)"
  by (induction items) (auto simp: plus_or_minus_def operations_def)

lemma parse_well_formed:
  assumes "well_formed w0 t0 items wend"
  shows "parse n (render w0 t0 items wend)
    = Inr (Some (left_tree (literal_cint t0) (operations items)))"
  using assms parse_tokenised [of w0 t0 items wend n]
    foldl_attach_wrap [OF operations_plus_or_minus, of items "NumberExpression (literal_cint t0)"]
  by (simp add: well_formed_def left_tree_def)

lemma interpret_foldl_wrap:
  "interpret_expr e = Inr a \<Longrightarrow> interpret_expr (foldl wrap e xs) = Inr (foldl apply_op a xs)"
  by (induction xs arbitrary: e a) (auto simp: wrap_def apply_op_def)

lemma count_leaves_foldl_wrap: "count_leaves (foldl wrap e xs) = count_leaves e + length xs"
  by (induction xs arbitrary: e) (auto simp: wrap_def)

lemma count_internal_foldl_wrap:
  "count_internal (foldl wrap e xs) = count_internal e + length xs"
  by (induction xs arbitrary: e) (auto simp: wrap_def)

lemma no_null_foldl_wrap: "no_null e \<Longrightarrow> no_null (foldl wrap e xs)"
  by (induction xs arbitrary: e) (auto simp: wrap_def)

lemma left_assoc_foldl_wrap: "left_assoc e \<Longrightarrow> left_assoc (foldl wrap e xs)"
  by (induction xs arbitrary: e) (auto simp: wrap_def)

lemma operands_foldl_wrap: "operands (foldl wrap e xs) = operands e @ map snd xs"
  by (induction xs arbitrary: e) (auto simp: wrap_def)

lemma operations_length: "length (operations items) = length items"
  by (simp add: operations_def)

lemma foldl_apply_op_of_int:
  "foldl apply_op (word_of_int a) (map (\<lambda>x. (fst x, word_of_int (snd x))) xs)
     = word_of_int (foldl int_apply_op a xs)"
proof (induction xs arbitrary: a)
  case Nil
  show ?case by simp
next
  case (Cons x xs)
  have "apply_op (word_of_int a) (fst x, word_of_int (snd x)) = word_of_int (int_apply_op a x)"
    by (cases x) (simp add: apply_op_def int_apply_op_def)
  then show ?case
    using Cons.IH [of "int_apply_op a x"] by simp
qed

lemma operations_int_operations:
  "operations items = map (\<lambda>x. (fst x, word_of_int (snd x))) (int_operations items)"
  by (induction items) (auto simp: operations_def int_operations_def literal_cint_def)

lemma no_overflow_result: "no_overflow a xs \<Longrightarrow> in_int_range (foldl int_apply_op a xs)"
  by (induction xs arbitrary: a) auto

lemma sint_in_range: "in_int_range v \<Longrightarrow> sint (word_of_int v :: cint) = v"
  by (simp add: in_int_range_def INT_MIN_def INT_MAX_def sint_sbintrunc'
      signed_take_bit_int_eq_self)

lemmas parse_eval_defs =
  parse_def extract_int_def sentry_def good_def isspace_def isdigit_def num_get_def
  digits_value_def digit_value_def INT_MIN_def INT_MAX_def read_loop.simps get_char_def
  move_at_def build_loop.simps Let_def

lemmas input_defs =
  well_formed_def tokenised_def item_ok_def plus_or_minus_def whitespace_def number_token_def
  int_literal_def literal_value_def in_int_range_def op_char_def isspace_def isdigit_def
  digits_value_def digit_value_def INT_MIN_def INT_MAX_def Let_def

lemmas render_defs =
  render_def render_item_def operations_def int_operations_def literal_cint_def
  literal_value_def digits_value_def digit_value_def

lemma well_formed_prefix:
  "well_formed w0 t0 (pre @ [item]) wend \<Longrightarrow> well_formed w0 t0 pre wend"
  by (simp add: well_formed_def tokenised_def)

lemma left_tree_snoc:
  "left_tree n0 (xs @ [x]) = wrap (left_tree n0 xs) x"
  by (simp add: left_tree_def)

lemma operations_snoc:
  "operations (pre @ [item]) = operations pre @ operations [item]"
  by (simp add: operations_def)

subsection \<open>Inputs that end early or hold something else than a number\<close>

lemma extract_int_eof:
  assumes "whitespace w"
  shows "extract_int \<lparr>buf = w, eofbit = False, failbit = False\<rparr> num
           = (num, \<lparr>buf = [], eofbit = True, failbit = True\<rparr>)"
proof -
  from assms have "dropWhile isspace w = []"
    by (simp add: whitespace_def list_all_iff)
  then show ?thesis
    by (simp add: extract_int_def sentry_def good_def)
qed

lemma extract_int_bad:
  assumes "whitespace w" and "\<not> isspace c" and "\<not> isdigit c"
    and "c \<noteq> CHR ''-''" and "c \<noteq> CHR ''+''"
  shows "extract_int \<lparr>buf = w @ c # r, eofbit = False, failbit = False\<rparr> num
           = (0, \<lparr>buf = c # r, eofbit = False, failbit = True\<rparr>)"
  using assms(3-5)
  by (simp add: extract_int_def sentry_skip [OF assms(1,2)] num_get_def)

lemma read_loop_not_good:
  assumes "\<not> good iss"
  shows "read_loop iss num ops terms = (ops, terms)"
proof -
  from assms have "get_char iss = (None, iss\<lparr>failbit := True\<rparr>)"
    by (simp add: get_char_def sentry_def)
  then show ?thesis
    by (subst read_loop.simps) simp
qed

lemma read_loop_trailing_op:
  assumes "whitespace w1" and "\<not> isspace op" and "whitespace w2"
  shows "read_loop \<lparr>buf = w1 @ op # w2, eofbit = False, failbit = False\<rparr> num ops terms
           = (ops @ [op], terms @ [Some (NumberExpression num)])"
proof -
  have "read_loop \<lparr>buf = w1 @ op # w2, eofbit = False, failbit = False\<rparr> num ops terms
      = read_loop \<lparr>buf = [], eofbit = True, failbit = True\<rparr> num (ops @ [op])
          (terms @ [Some (NumberExpression num)])"
    by (subst read_loop.simps)
      (simp add: get_char_op [OF assms(1,2)] extract_int_eof [OF assms(3)])
  then show ?thesis
    by (simp add: read_loop_not_good good_def)
qed

lemma read_loop_bad_number:
  assumes "whitespace w1" and "\<not> isspace op" and "whitespace w2"
    and "\<not> isspace c" and "\<not> isdigit c" and "c \<noteq> CHR ''-''" and "c \<noteq> CHR ''+''"
  shows "read_loop \<lparr>buf = w1 @ op # w2 @ c # r, eofbit = False, failbit = False\<rparr>
             num ops terms
           = (ops @ [op], terms @ [Some (NumberExpression 0)])"
proof -
  have "read_loop \<lparr>buf = w1 @ op # (w2 @ c # r), eofbit = False, failbit = False\<rparr>
          num ops terms
      = read_loop \<lparr>buf = c # r, eofbit = False, failbit = True\<rparr> 0 (ops @ [op])
          (terms @ [Some (NumberExpression 0)])"
    by (subst read_loop.simps)
      (simp add: get_char_op [OF assms(1,2)] extract_int_bad [OF assms(3-7)])
  then show ?thesis
    by (simp add: read_loop_not_good good_def)
qed

lemma parse_with_tail:
  assumes tok: "tokenised w0 t0 items []"
    and tail: "tail \<noteq> []" "\<not> isdigit (hd tail)"
    and r: "\<And>num ops terms.
      read_loop \<lparr>buf = tail, eofbit = False, failbit = False\<rparr> num ops terms
        = (ops @ [op], terms @ [Some (NumberExpression (f num))])"
  shows "parse n (render w0 t0 items [] @ tail)
    = Inr (foldl attach (Some (NumberExpression (literal_cint t0)))
        (map lift_item
          (operations items
             @ [(op, f (last (literal_cint t0 # map snd (operations items))))])))"
proof -
  from tok have w0: "whitespace w0" and t0: "number_token t0"
      and items: "list_all item_ok items"
    by (simp_all add: tokenised_def)
  let ?R = "concat (map render_item items) @ tail"
  let ?xs = "operations items"
  let ?n0 = "literal_cint t0"
  let ?last = "last (?n0 # map snd ?xs)"
  from tail have tl: "tail = [] \<or> \<not> isdigit (hd tail)" by simp
  from tail have R: "?R \<noteq> []" by simp
  have e: "extract_int \<lparr>buf = w0 @ t0 @ ?R, eofbit = False, failbit = False\<rparr> n
      = (?n0, \<lparr>buf = ?R, eofbit = (?R = []), failbit = False\<rparr>)"
    using w0 t0 rest_no_digit [OF items tl] by (intro extract_int_token)
  have "read_loop \<lparr>buf = ?R, eofbit = (?R = []), failbit = False\<rparr> ?n0 []
        [Some (NumberExpression ?n0)]
      = read_loop \<lparr>buf = tail, eofbit = (tail = []), failbit = False\<rparr> ?last
          ([] @ map fst ?xs)
          ([Some (NumberExpression ?n0)] @ map (\<lambda>x. Some (NumberExpression (snd x))) ?xs)"
    by (rule read_loop_prefix [OF items tl])
  also have "\<dots> = (map fst (?xs @ [(op, f ?last)]),
      Some (NumberExpression ?n0)
        # map (\<lambda>x. Some (NumberExpression (snd x))) (?xs @ [(op, f ?last)]))"
    using tail(1) by (simp add: r)
  finally have rl: "read_loop \<lparr>buf = ?R, eofbit = (?R = []), failbit = False\<rparr> ?n0 []
        [Some (NumberExpression ?n0)]
      = (map fst (?xs @ [(op, f ?last)]),
         Some (NumberExpression ?n0)
           # map (\<lambda>x. Some (NumberExpression (snd x))) (?xs @ [(op, f ?last)]))" .
  have "parse n (w0 @ t0 @ ?R)
      = Inr (foldl attach (Some (NumberExpression ?n0)) (map lift_item (?xs @ [(op, f ?last)])))"
    by (rule parse_from_read [OF e rl])
  then show ?thesis
    by (simp add: render_def)
qed

lemma parse_returns_tree: "\<exists>t. parse n s = Inr (Some t) \<and> no_null t"
proof -
  obtain n0 xs where
    "parse n s = Inr (foldl attach (Some (NumberExpression n0)) (map lift_item xs))"
    using parse_foldl by blast
  moreover have "\<exists>t. foldl attach (Some (NumberExpression n0)) (map lift_item xs) = Some t
      \<and> no_null t"
    by (rule foldl_attach_no_null) simp
  ultimately show ?thesis by auto
qed

lemma last_token_ok:
  assumes "tokenised w0 t0 items wend"
  shows "number_token (last_token t0 items)
    \<and> literal_cint (last_token t0 items) = last (literal_cint t0 # map snd (operations items))"
proof -
  let ?tok = "\<lambda>item :: op_item. case item of (w1, op, w2, t) \<Rightarrow> t"
  from assms have t0: "number_token t0" and items: "list_all item_ok items"
    by (simp_all add: tokenised_def)
  have "list_all number_token (t0 # map ?tok items)"
    using t0 items by (induction items) (auto simp: item_ok_def)
  then have "number_token (last (t0 # map ?tok items))"
    by (metis last_in_set list.distinct(1) list_all_iff)
  moreover have "map literal_cint (t0 # map ?tok items)
      = literal_cint t0 # map snd (operations items)"
    by (induction items) (auto simp: operations_def)
  then have "literal_cint (last (t0 # map ?tok items))
      = last (literal_cint t0 # map snd (operations items))"
    by (metis last_map list.distinct(1))
  ultimately show ?thesis
    by (simp add: last_token_def)
qed

lemma tokenised_snoc:
  assumes "tokenised w0 t0 items []" and "whitespace w1" and "op_char op"
    and "whitespace w2" and "number_token t"
  shows "tokenised w0 t0 (items @ [(w1, op, w2, t)]) []"
  using assms by (simp add: tokenised_def item_ok_def)

lemma parse_trailing_operator:
  assumes tok: "tokenised w0 t0 items []" and w1: "whitespace w1" and op: "op_char op"
    and w2: "whitespace w2"
  shows "parse n (render w0 t0 items [] @ w1 @ [op] @ w2)
    = parse n (render w0 t0 (items @ [(w1, op, w2, last_token t0 items)]) [])"
proof -
  from op have nsp: "\<not> isspace op" and nd: "\<not> isdigit op"
    by (simp_all add: op_char_def)
  have tail: "w1 @ op # w2 \<noteq> []" "\<not> isdigit (hd (w1 @ op # w2))"
    using w1 nd by (cases w1; simp add: whitespace_def isspace_not_isdigit)+
  have "parse n (render w0 t0 items [] @ (w1 @ op # w2))
      = Inr (foldl attach (Some (NumberExpression (literal_cint t0)))
          (map lift_item
            (operations items
               @ [(op, (\<lambda>num. num) (last (literal_cint t0 # map snd (operations items))))])))"
    by (rule parse_with_tail [OF tok tail]) (rule read_loop_trailing_op [OF w1 nsp w2])
  moreover have "parse n (render w0 t0 (items @ [(w1, op, w2, last_token t0 items)]) [])
      = Inr (foldl attach (Some (NumberExpression (literal_cint t0)))
          (map lift_item (operations (items @ [(w1, op, w2, last_token t0 items)]))))"
    using tok w1 op w2 last_token_ok [OF tok]
    by (intro parse_tokenised tokenised_snoc) simp_all
  moreover have "operations (items @ [(w1, op, w2, last_token t0 items)])
      = operations items @ [(op, last (literal_cint t0 # map snd (operations items)))]"
    using last_token_ok [OF tok] by (simp add: operations_def)
  ultimately show ?thesis by simp
qed

lemma number_token_zero: "number_token ''0'' \<and> literal_cint ''0'' = 0"
  by (simp add: input_defs literal_cint_def)

lemma parse_bad_number:
  assumes tok: "tokenised w0 t0 items []" and w1: "whitespace w1" and op: "op_char op"
    and w2: "whitespace w2" and c: "not_numeric c"
  shows "parse n (render w0 t0 items [] @ w1 @ [op] @ w2 @ c # r)
    = parse n (render w0 t0 (items @ [(w1, op, w2, ''0'')]) [])"
proof -
  from op have nsp: "\<not> isspace op" and nd: "\<not> isdigit op"
    by (simp_all add: op_char_def)
  from c have c': "\<not> isspace c" "\<not> isdigit c" "c \<noteq> CHR ''-''" "c \<noteq> CHR ''+''"
    by (simp_all add: not_numeric_def)
  have tail: "w1 @ op # w2 @ c # r \<noteq> []" "\<not> isdigit (hd (w1 @ op # w2 @ c # r))"
    using w1 nd by (cases w1; simp add: whitespace_def isspace_not_isdigit)+
  have "parse n (render w0 t0 items [] @ (w1 @ op # w2 @ c # r))
      = Inr (foldl attach (Some (NumberExpression (literal_cint t0)))
          (map lift_item
            (operations items
               @ [(op, (\<lambda>num. 0) (last (literal_cint t0 # map snd (operations items))))])))"
    by (rule parse_with_tail [OF tok tail]) (rule read_loop_bad_number [OF w1 nsp w2 c'])
  moreover have "parse n (render w0 t0 (items @ [(w1, op, w2, ''0'')]) [])
      = Inr (foldl attach (Some (NumberExpression (literal_cint t0)))
          (map lift_item (operations (items @ [(w1, op, w2, ''0'')]))))"
    using tok w1 op w2 number_token_zero
    by (intro parse_tokenised tokenised_snoc) simp_all
  moreover have "operations (items @ [(w1, op, w2, ''0'')]) = operations items @ [(op, 0)]"
    using number_token_zero by (simp add: operations_def)
  ultimately show ?thesis by simp
qed

lemma parse_blank:
  assumes "whitespace w"
  shows "parse n w = Inr (Some (NumberExpression n))"
proof -
  have "parse n w = Inr (foldl attach (Some (NumberExpression n)) (map lift_item []))"
    by (rule parse_from_read [OF extract_int_eof [OF assms]])
      (simp add: read_loop_not_good good_def)
  then show ?thesis by simp
qed

lemma parse_not_a_number:
  assumes w: "whitespace w" and c: "not_numeric c"
  shows "parse n (w @ c # r) = Inr (Some (NumberExpression 0))"
proof -
  from c have c': "\<not> isspace c" "\<not> isdigit c" "c \<noteq> CHR ''-''" "c \<noteq> CHR ''+''"
    by (simp_all add: not_numeric_def)
  have "parse n (w @ c # r) = Inr (foldl attach (Some (NumberExpression 0)) (map lift_item []))"
    by (rule parse_from_read [OF extract_int_bad [OF w c']])
      (simp add: read_loop_not_good good_def)
  then show ?thesis by simp
qed

lemma parse_filter:
  assumes "tokenised w0 t0 items wend"
  shows "parse n (render w0 t0 items wend)
    = parse n (render w0 t0 (filter plus_or_minus items) wend)"
proof -
  from assms have "tokenised w0 t0 (filter plus_or_minus items) wend"
    by (simp add: tokenised_def list_all_iff)
  then have "parse n (render w0 t0 (filter plus_or_minus items) wend)
      = Inr (foldl attach (Some (NumberExpression (literal_cint t0)))
          (map lift_item (operations (filter plus_or_minus items))))"
    by (rule parse_tokenised)
  moreover have "foldl attach (Some (NumberExpression (literal_cint t0)))
        (map lift_item (operations items))
      = foldl attach (Some (NumberExpression (literal_cint t0)))
          (map lift_item (operations (filter plus_or_minus items)))"
    using foldl_attach_filter [of "Some (NumberExpression (literal_cint t0))" "operations items"]
    by (simp only: operations_filter)
  ultimately show ?thesis
    by (simp add: parse_tokenised [OF assms])
qed

subsection \<open>Evaluation of a node\<close>

text \<open>
  C3. A number node evaluates to the integer it stores; an addition node evaluates to the
  sum, and a subtraction node to the difference, of what its left and its right child
  evaluate to (in the arithmetic of \<^verbatim>\<open>int\<close>).
\<close>

theorem interpret_per_variant:
  assumes "interpret_expr l = Inr a" and "interpret_expr r = Inr b"
  shows "interpret_expr (NumberExpression n) = Inr n
    \<and> interpret_expr (AddExpression (Some l) (Some r)) = Inr (a + b)
    \<and> interpret_expr (SubtractExpression (Some l) (Some r)) = Inr (a - b)"
  using assms by simp

theorem interpret_per_variant_witness:
  "interpret_expr (SubtractExpression (Some (NumberExpression 10)) (Some (NumberExpression 4)))
     = Inr 6
   \<and> interpret_expr (NumberExpression 2) = Inr 2
   \<and> interpret_expr (NumberExpression 7) = Inr 7
   \<and> interpret_expr
        (AddExpression
          (Some (SubtractExpression (Some (NumberExpression 10)) (Some (NumberExpression 4))))
          (Some (NumberExpression 2))) = Inr 8
   \<and> interpret_expr
        (SubtractExpression
          (Some (SubtractExpression (Some (NumberExpression 10)) (Some (NumberExpression 4))))
          (Some (NumberExpression 2))) = Inr 4"
proof -
  have l: "interpret_expr
      (SubtractExpression (Some (NumberExpression 10)) (Some (NumberExpression 4))) = Inr 6"
    by simp
  have r: "interpret_expr (NumberExpression 2) = Inr 2"
    by simp
  show ?thesis
    using l r interpret_per_variant [OF l r, of 7] by simp
qed

text \<open>
  C6. Evaluation changes nothing in the tree and is repeatable: a call leaves the tree as
  it was, and any number of calls in a row on the same tree all return the same result.
\<close>

theorem interpret_pure:
  "interpret_st e = (interpret_expr e, e)
   \<and> interpret_repeat k e = (replicate k (interpret_expr e), e)"
  by (simp add: interpret_st_eq interpret_repeat_eq)

subsection \<open>Parsing well-formed inputs\<close>

text \<open>
  C1. For every well-formed input \<open>N0 op1 N1 ... opk Nk\<close>, parsing and then evaluating
  gives the left-to-right fold \<open>((N0 op1 N1) op2 N2) ... opk Nk\<close>, computed in the
  arithmetic of \<^verbatim>\<open>int\<close>; when no partial result of the fold leaves the range of
  \<^verbatim>\<open>int\<close>, the signed value of the result is the fold in the integers.
\<close>

theorem parse_evaluates_left_fold:
  assumes "well_formed w0 t0 items wend"
  shows "parse_interpret n (render w0 t0 items wend)
           = Inr (left_fold (literal_cint t0) (operations items))
    \<and> (no_overflow (literal_value t0) (int_operations items) \<longrightarrow>
         (\<exists>v. parse_interpret n (render w0 t0 items wend) = Inr v
            \<and> sint v = int_left_fold (literal_value t0) (int_operations items)))"
proof -
  let ?v = "left_fold (literal_cint t0) (operations items)"
  have "interpret_expr (left_tree (literal_cint t0) (operations items)) = Inr ?v"
    unfolding left_tree_def left_fold_def by (rule interpret_foldl_wrap) simp
  then have p: "parse_interpret n (render w0 t0 items wend) = Inr ?v"
    by (simp add: parse_interpret_def interpret_ptr_def parse_well_formed [OF assms])
  have w: "?v = word_of_int (int_left_fold (literal_value t0) (int_operations items))"
    unfolding left_fold_def int_left_fold_def literal_cint_def
    by (simp only: operations_int_operations foldl_apply_op_of_int)
  have "sint ?v = int_left_fold (literal_value t0) (int_operations items)"
    if "no_overflow (literal_value t0) (int_operations items)"
    using no_overflow_result [OF that] w by (simp add: int_left_fold_def sint_in_range)
  with p show ?thesis by simp
qed

theorem parse_evaluates_left_fold_witness:
  "well_formed [] ''5'' [('' '', CHR ''+'', '' '', ''3''), ('' '', CHR ''-'', '' '', ''2'')] []
   \<and> no_overflow 5 [(CHR ''+'', 3), (CHR ''-'', 2)]
   \<and> parse_interpret 0 ''5 + 3 - 2'' = Inr 6
   \<and> sint (6 :: cint) = 6"
proof -
  have wf: "well_formed [] ''5''
      [('' '', CHR ''+'', '' '', ''3''), ('' '', CHR ''-'', '' '', ''2'')] []"
    by (simp add: input_defs)
  have no: "no_overflow 5 [(CHR ''+'', 3), (CHR ''-'', 2)]"
    by (simp add: int_apply_op_def in_int_range_def INT_MIN_def INT_MAX_def)
  show ?thesis
    using wf no parse_evaluates_left_fold [OF wf, of 0]
    by (simp add: render_defs left_fold_def apply_op_def)
qed


text \<open>
  C4. For a well-formed input with \<open>k\<close> operators the tree has \<open>k + 1\<close> number leaves
  and \<open>k\<close> internal nodes, no node has a null child, the right child of every internal
  node is a number leaf and the leaves are the numbers in the order of the input. The
  left child of the root is the tree of the input up to the last operator: every
  internal node has the accumulator of all terms before it as its left subtree.
\<close>

theorem parse_tree_shape:
  assumes "well_formed w0 t0 items wend"
  shows "\<exists>T. parse n (render w0 t0 items wend) = Inr (Some T)
    \<and> T = left_tree (literal_cint t0) (operations items)
    \<and> count_leaves T = length items + 1
    \<and> count_internal T = length items
    \<and> no_null T
    \<and> left_assoc T
    \<and> operands T = literal_cint t0 # map snd (operations items)
    \<and> (\<forall>pre item. items = pre @ [item] \<longrightarrow>
          (\<exists>l r. (T = AddExpression (Some l) r \<or> T = SubtractExpression (Some l) r)
             \<and> parse n (render w0 t0 pre wend) = Inr (Some l)))"
proof -
  let ?T = "left_tree (literal_cint t0) (operations items)"
  have p: "parse n (render w0 t0 items wend) = Inr (Some ?T)"
    by (rule parse_well_formed [OF assms])
  have leaves: "count_leaves ?T = length items + 1"
    by (simp add: left_tree_def count_leaves_foldl_wrap operations_length)
  have internal: "count_internal ?T = length items"
    by (simp add: left_tree_def count_internal_foldl_wrap operations_length)
  have nn: "no_null ?T"
    unfolding left_tree_def by (rule no_null_foldl_wrap) simp
  have la: "left_assoc ?T"
    unfolding left_tree_def by (rule left_assoc_foldl_wrap) simp
  have ops: "operands ?T = literal_cint t0 # map snd (operations items)"
    by (simp add: left_tree_def operands_foldl_wrap)
  have acc: "\<exists>l r. (?T = AddExpression (Some l) r \<or> ?T = SubtractExpression (Some l) r)
        \<and> parse n (render w0 t0 pre wend) = Inr (Some l)"
    if items: "items = pre @ [item]" for pre item
  proof -
    let ?L = "left_tree (literal_cint t0) (operations pre)"
    from assms items have "well_formed w0 t0 pre wend"
      using well_formed_prefix by blast
    then have l: "parse n (render w0 t0 pre wend) = Inr (Some ?L)"
      by (rule parse_well_formed)
    obtain x where x: "operations [item] = [x]"
      by (simp add: operations_def)
    have "?T = wrap ?L x"
      by (simp add: items operations_snoc x left_tree_snoc)
    then have "\<exists>r. ?T = AddExpression (Some ?L) r \<or> ?T = SubtractExpression (Some ?L) r"
      by (cases x) (simp add: wrap_def)
    with l show ?thesis by blast
  qed
  from p leaves internal nn la ops acc show ?thesis
    by blast
qed

theorem parse_tree_shape_witness:
  "well_formed [] ''5'' [('' '', CHR ''+'', '' '', ''3''), ('' '', CHR ''-'', '' '', ''2'')] []
   \<and> parse 0 ''5 + 3 - 2''
       = Inr (Some (SubtractExpression
           (Some (AddExpression (Some (NumberExpression 5)) (Some (NumberExpression 3))))
           (Some (NumberExpression 2))))
   \<and> parse 0 ''5 + 3''
       = Inr (Some (AddExpression (Some (NumberExpression 5)) (Some (NumberExpression 3))))"
proof -
  have wf: "well_formed [] ''5''
      [('' '', CHR ''+'', '' '', ''3''), ('' '', CHR ''-'', '' '', ''2'')] []"
    by (simp add: input_defs)
  from parse_tree_shape [OF wf, of 0] obtain T where
    T: "parse 0 (render [] ''5''
          [('' '', CHR ''+'', '' '', ''3''), ('' '', CHR ''-'', '' '', ''2'')] []) = Inr (Some T)"
      "T = left_tree (literal_cint ''5'')
         (operations [('' '', CHR ''+'', '' '', ''3''), ('' '', CHR ''-'', '' '', ''2'')])"
    and acc: "\<forall>pre item.
        [('' '', CHR ''+'', '' '', ''3''), ('' '', CHR ''-'', '' '', ''2'')] = pre @ [item] \<longrightarrow>
        (\<exists>l r. (T = AddExpression (Some l) r \<or> T = SubtractExpression (Some l) r)
           \<and> parse 0 (render [] ''5'' pre []) = Inr (Some l))"
    by blast
  have T': "T = SubtractExpression
      (Some (AddExpression (Some (NumberExpression 5)) (Some (NumberExpression 3))))
      (Some (NumberExpression 2))"
    using T(2) by (simp add: render_defs left_tree_def wrap_def)
  from acc [rule_format, of "[('' '', CHR ''+'', '' '', ''3'')]" "('' '', CHR ''-'', '' '', ''2'')"]
  have "parse 0 ''5 + 3''
      = Inr (Some (AddExpression (Some (NumberExpression 5)) (Some (NumberExpression 3))))"
    by (simp add: T' render_defs)
  with wf T(1) T' show ?thesis
    by (simp add: render_defs)
qed

text \<open>
  C2. Parsing is strictly left-associative and knows no precedence: for every well-formed
  input the tree is the left-nested one, in which the right child of every internal node
  is a number leaf, and it evaluates to the left-to-right fold. So
  \<^verbatim>\<open>"10 - 4 + 2"\<close> parses as \<open>(10 - 4) + 2\<close>, not as \<open>10 - (4 + 2)\<close>, and
  evaluates to 8, not to 4 (which is what the other tree evaluates to).
\<close>

theorem parse_left_associative:
  "(well_formed w0 t0 items wend \<longrightarrow>
      (\<exists>T. parse n (render w0 t0 items wend) = Inr (Some T)
         \<and> T = left_tree (literal_cint t0) (operations items)
         \<and> left_assoc T
         \<and> parse_interpret n (render w0 t0 items wend)
             = Inr (left_fold (literal_cint t0) (operations items))))
   \<and> parse n ''10 - 4 + 2''
     = Inr (Some (AddExpression
         (Some (SubtractExpression (Some (NumberExpression 10)) (Some (NumberExpression 4))))
         (Some (NumberExpression 2))))
   \<and> parse n ''10 - 4 + 2''
     \<noteq> Inr (Some (SubtractExpression
         (Some (NumberExpression 10))
         (Some (AddExpression (Some (NumberExpression 4)) (Some (NumberExpression 2))))))
   \<and> parse_interpret n ''10 - 4 + 2'' = Inr 8
   \<and> parse_interpret n ''10 - 4 + 2'' \<noteq> Inr 4
   \<and> interpret_expr (SubtractExpression
         (Some (NumberExpression 10))
         (Some (AddExpression (Some (NumberExpression 4)) (Some (NumberExpression 2)))))
       = Inr 4"
proof -
  have general: "\<exists>T. parse n (render w0 t0 items wend) = Inr (Some T)
      \<and> T = left_tree (literal_cint t0) (operations items)
      \<and> left_assoc T
      \<and> parse_interpret n (render w0 t0 items wend)
          = Inr (left_fold (literal_cint t0) (operations items))"
    if wf: "well_formed w0 t0 items wend"
  proof -
    let ?T = "left_tree (literal_cint t0) (operations items)"
    have p: "parse n (render w0 t0 items wend) = Inr (Some ?T)"
      by (rule parse_well_formed [OF wf])
    have la: "left_assoc ?T"
      unfolding left_tree_def by (rule left_assoc_foldl_wrap) simp
    have "interpret_expr ?T = Inr (left_fold (literal_cint t0) (operations items))"
      unfolding left_tree_def left_fold_def by (rule interpret_foldl_wrap) simp
    then have "parse_interpret n (render w0 t0 items wend)
        = Inr (left_fold (literal_cint t0) (operations items))"
      by (simp add: parse_interpret_def interpret_ptr_def p)
    with p la show ?thesis by blast
  qed
  have example: "parse n ''10 - 4 + 2''
      = Inr (Some (AddExpression
          (Some (SubtractExpression (Some (NumberExpression 10)) (Some (NumberExpression 4))))
          (Some (NumberExpression 2))))"
    by (simp add: parse_eval_defs)
  have g: "well_formed w0 t0 items wend \<longrightarrow>
      (\<exists>T. parse n (render w0 t0 items wend) = Inr (Some T)
         \<and> T = left_tree (literal_cint t0) (operations items)
         \<and> left_assoc T
         \<and> parse_interpret n (render w0 t0 items wend)
             = Inr (left_fold (literal_cint t0) (operations items)))"
    using general by blast
  have other: "parse n ''10 - 4 + 2''
      \<noteq> Inr (Some (SubtractExpression
          (Some (NumberExpression 10))
          (Some (AddExpression (Some (NumberExpression 4)) (Some (NumberExpression 2))))))"
    by (simp add: example)
  have eight: "parse_interpret n ''10 - 4 + 2'' = Inr 8"
    by (simp add: parse_interpret_def interpret_ptr_def example)
  have not_four: "parse_interpret n ''10 - 4 + 2'' \<noteq> Inr 4"
    by (simp add: eight)
  have four: "interpret_expr (SubtractExpression
        (Some (NumberExpression 10))
        (Some (AddExpression (Some (NumberExpression 4)) (Some (NumberExpression 2)))))
      = Inr 4"
    by simp
  show ?thesis
    by (intro conjI) (rule g example other eight not_four four)+
qed

theorem parse_left_associative_witness:
  "well_formed [] ''1'' [('' '', CHR ''-'', '' '', ''2''), ('' '', CHR ''-'', '' '', ''3'')] []
   \<and> parse 0 ''1 - 2 - 3''
       = Inr (Some (SubtractExpression
           (Some (SubtractExpression (Some (NumberExpression 1)) (Some (NumberExpression 2))))
           (Some (NumberExpression 3))))
   \<and> left_assoc (SubtractExpression
           (Some (SubtractExpression (Some (NumberExpression 1)) (Some (NumberExpression 2))))
           (Some (NumberExpression 3)))
   \<and> parse_interpret 0 ''1 - 2 - 3'' = Inr (- 4)"
proof -
  have wf: "well_formed [] ''1''
      [('' '', CHR ''-'', '' '', ''2''), ('' '', CHR ''-'', '' '', ''3'')] []"
    by (simp add: input_defs)
  show ?thesis
    using wf
      parse_left_associative [of "[]" "''1''"
        "[('' '', CHR ''-'', '' '', ''2''), ('' '', CHR ''-'', '' '', ''3'')]" "[]" 0]
    by (simp add: render_defs left_tree_def wrap_def left_fold_def apply_op_def)
qed

text \<open>
  C7. An input that is a single number parses to a lone number leaf holding that number
  and evaluates to it; \<^verbatim>\<open>"7"\<close> evaluates to 7.
\<close>

theorem single_number:
  "parse n ''7'' = Inr (Some (NumberExpression 7))
   \<and> parse_interpret n ''7'' = Inr 7
   \<and> (whitespace w0 \<and> number_token t \<and> whitespace wend \<longrightarrow>
        parse n (w0 @ t @ wend) = Inr (Some (NumberExpression (literal_cint t)))
        \<and> parse_interpret n (w0 @ t @ wend) = Inr (literal_cint t))"
proof -
  have seven: "parse n ''7'' = Inr (Some (NumberExpression 7))"
    by (simp add: parse_eval_defs)
  have "parse n (w0 @ t @ wend) = Inr (Some (NumberExpression (literal_cint t)))"
    if "whitespace w0" "number_token t" "whitespace wend"
    using that parse_well_formed [of w0 t "[]" wend n]
    by (simp add: well_formed_def tokenised_def render_def left_tree_def operations_def)
  with seven show ?thesis
    by (simp add: parse_interpret_def interpret_ptr_def)
qed

theorem single_number_witness:
  "whitespace '' '' \<and> number_token ''-42'' \<and> whitespace []
   \<and> parse 0 '' -42'' = Inr (Some (NumberExpression (- 42)))
   \<and> parse_interpret 0 '' -42'' = Inr (- 42)"
proof -
  have h: "whitespace '' '' \<and> number_token ''-42'' \<and> whitespace []"
    by (simp add: input_defs)
  show ?thesis
    using h single_number [of 0 "'' ''" "''-42''" "[]"]
    by (simp add: render_defs)
qed

subsection \<open>Operators other than plus and minus\<close>

text \<open>
  C10. When the character read as an operator is neither \<^verbatim>\<open>'+'\<close> nor
  \<^verbatim>\<open>'-'\<close>, the round of the tree-building loop for it leaves \<^verbatim>\<open>result\<close> as
  it is. The operator and the number after it are dropped: the input parses to the same
  tree as the input without them, and \<^verbatim>\<open>"5 * 3"\<close> parses to the leaf 5 and evaluates
  to 5.
\<close>

theorem other_operator_dropped:
  "(i < length ops \<and> ops ! i \<noteq> CHR ''+'' \<and> ops ! i \<noteq> CHR ''-'' \<longrightarrow>
      build_loop i ops terms result = build_loop (i + 1) ops terms result)
   \<and> (tokenised w0 t0 items wend \<longrightarrow>
        parse n (render w0 t0 items wend)
          = parse n (render w0 t0 (filter plus_or_minus items) wend))
   \<and> parse n ''5 * 3'' = Inr (Some (NumberExpression 5))
   \<and> parse_interpret n ''5 * 3'' = Inr 5"
proof -
  have step: "build_loop i ops terms result = build_loop (i + 1) ops terms result"
    if "i < length ops" "ops ! i \<noteq> CHR ''+''" "ops ! i \<noteq> CHR ''-''"
    using that by (subst build_loop.simps) simp
  have ex: "parse n ''5 * 3'' = Inr (Some (NumberExpression 5))"
    by (simp add: parse_eval_defs)
  from step ex parse_filter show ?thesis
    by (simp add: parse_interpret_def interpret_ptr_def)
qed

theorem other_operator_dropped_witness:
  "tokenised [] ''5'' [('' '', CHR ''*'', '' '', ''3''), ('' '', CHR ''+'', '' '', ''2'')] []
   \<and> parse 0 ''5 * 3 + 2'' = parse 0 ''5 + 2''
   \<and> build_loop 0 ''*'' [None, Some (NumberExpression 3)] (Some (NumberExpression 5))
       = build_loop 1 ''*'' [None, Some (NumberExpression 3)] (Some (NumberExpression 5))"
proof -
  have tok: "tokenised [] ''5''
      [('' '', CHR ''*'', '' '', ''3''), ('' '', CHR ''+'', '' '', ''2'')] []"
    by (simp add: input_defs)
  have i: "(0 :: nat) < length ''*'' \<and> ''*'' ! 0 \<noteq> CHR ''+'' \<and> ''*'' ! 0 \<noteq> CHR ''-''"
    by simp
  show ?thesis
    using tok i
      other_operator_dropped [of 0 "''*''" "[None, Some (NumberExpression 3)]"
        "Some (NumberExpression 5)" "[]" "''5''"
        "[('' '', CHR ''*'', '' '', ''3''), ('' '', CHR ''+'', '' '', ''2'')]" "[]" 0]
    by (simp add: render_def render_item_def plus_or_minus_def)
qed

subsection \<open>Evaluation of the trees that are built\<close>

text \<open>
  C8. Evaluation of a built tree returns a value and never fails: on a tree without null
  children, and so on every tree that \<^verbatim>\<open>parse\<close> returns, \<^verbatim>\<open>interpret()\<close> is
  total (it is defined by structural recursion), its result is a number and not a fault,
  and the calls nest no deeper than the tree is high.
\<close>

theorem interpret_total:
  "(no_null e \<longrightarrow>
      (\<exists>v. interpret_expr e = Inr v \<and> interpret_within (height e) e = Some (Inr v)))
   \<and> (parse n s = Inr p \<longrightarrow>
        (\<exists>t v. p = Some t \<and> no_null t \<and> interpret_expr t = Inr v
           \<and> interpret_within (height t) t = Some (Inr v)))"
proof -
  have a: "\<exists>v. interpret_expr e = Inr v \<and> interpret_within (height e) e = Some (Inr v)"
    if "no_null e" for e
    using no_null_interpret [OF that] interpret_within_height [of e "height e"] by auto
  have "\<exists>t v. p = Some t \<and> no_null t \<and> interpret_expr t = Inr v
      \<and> interpret_within (height t) t = Some (Inr v)"
    if "parse n s = Inr p"
  proof -
    from parse_returns_tree [of n s] that obtain t where "p = Some t" "no_null t"
      by auto
    with a [of t] show ?thesis by blast
  qed
  with a show ?thesis by blast
qed

theorem interpret_total_witness:
  "no_null (AddExpression (Some (NumberExpression 1)) (Some (NumberExpression 2)))
   \<and> interpret_expr (AddExpression (Some (NumberExpression 1)) (Some (NumberExpression 2)))
       = Inr 3
   \<and> interpret_within 2 (AddExpression (Some (NumberExpression 1)) (Some (NumberExpression 2)))
       = Some (Inr 3)
   \<and> parse 0 ''7 - 9''
       = Inr (Some (SubtractExpression (Some (NumberExpression 7)) (Some (NumberExpression 9))))
   \<and> interpret_within 2
        (SubtractExpression (Some (NumberExpression 7)) (Some (NumberExpression 9)))
       = Some (Inr (- 2))"
proof -
  let ?e = "AddExpression (Some (NumberExpression 1)) (Some (NumberExpression 2))"
  let ?t = "SubtractExpression (Some (NumberExpression 7)) (Some (NumberExpression 9))"
  have nn: "no_null ?e"
    by simp
  have p: "parse 0 ''7 - 9'' = Inr (Some ?t)"
    by (simp add: parse_eval_defs)
  from interpret_total [of ?e 0 "''7 - 9''" "Some ?t"] nn p
  have "(\<exists>v. interpret_expr ?e = Inr v \<and> interpret_within (height ?e) ?e = Some (Inr v))
      \<and> (\<exists>v. interpret_expr ?t = Inr v \<and> interpret_within (height ?t) ?t = Some (Inr v))"
    by simp
  then have "interpret_within (height ?e) ?e = Some (interpret_expr ?e)
      \<and> interpret_within (height ?t) ?t = Some (interpret_expr ?t)"
    by auto
  with nn p show ?thesis
    by (simp add: numeral_2_eq_2)
qed

subsection \<open>Malformed inputs\<close>

text \<open>
  C5, as the code has it. No input, malformed or not, makes \<^verbatim>\<open>parse\<close> raise an
  error or fail: for every input string it returns a tree that is not null and has no
  null child. The code has no error kinds.
\<close>

theorem parse_raises_no_error:
  "\<exists>t. parse n s = Inr (Some t) \<and> no_null t"
  by (rule parse_returns_tree)

text \<open>
  The inputs \<^verbatim>\<open>"5 + "\<close>, \<^verbatim>\<open>"5 + x"\<close>, \<^verbatim>\<open>"abc"\<close> and the empty string are
  malformed, and for each of them \<^verbatim>\<open>parse\<close> returns a tree instead of raising an
  error (here with \<^verbatim>\<open>num\<close> starting at 0).
\<close>

theorem malformed_input_returns_tree:
  "parse 0 ''5 + ''
     = Inr (Some (AddExpression (Some (NumberExpression 5)) (Some (NumberExpression 5))))
   \<and> parse 0 ''5 + x''
     = Inr (Some (AddExpression (Some (NumberExpression 5)) (Some (NumberExpression 0))))
   \<and> parse 0 ''abc'' = Inr (Some (NumberExpression 0))
   \<and> parse 0 [] = Inr (Some (NumberExpression 0))"
  by (simp add: parse_eval_defs)

text \<open>
  C9, as the code has it. For every input string \<^verbatim>\<open>parse\<close> returns a tree that is not
  null and evaluates without a fault, and it signals no error. Where a number is expected
  and the next character cannot begin one, the conversion fails and the value read is 0:
  such an input parses to the leaf 0 when this is the first number, and otherwise as if
  the operator were followed by \<^verbatim>\<open>0\<close> and the input ended there
  (\<^verbatim>\<open>"5 + x"\<close> evaluates to 5). Where the input ends instead, nothing is read and
  \<^verbatim>\<open>num\<close> keeps its value: an empty or blank input parses to a leaf holding the value
  \<^verbatim>\<open>num\<close> started with, and a trailing operator is treated as if followed by the
  number before it (\<^verbatim>\<open>"5 + "\<close> evaluates to 10).
\<close>

theorem parse_of_malformed_input:
  "(\<exists>t v. parse n s = Inr (Some t) \<and> interpret_expr t = Inr v)
   \<and> (whitespace w \<and> not_numeric c \<longrightarrow>
        parse n (w @ c # r) = Inr (Some (NumberExpression 0)))
   \<and> (tokenised w0 t0 items [] \<and> whitespace w1 \<and> op_char op \<and> whitespace w2
        \<and> not_numeric c \<longrightarrow>
        parse n (render w0 t0 items [] @ w1 @ [op] @ w2 @ c # r)
          = parse n (render w0 t0 (items @ [(w1, op, w2, ''0'')]) []))
   \<and> (whitespace w \<longrightarrow> parse n w = Inr (Some (NumberExpression n)))
   \<and> (tokenised w0 t0 items [] \<and> whitespace w1 \<and> op_char op \<and> whitespace w2 \<longrightarrow>
        parse n (render w0 t0 items [] @ w1 @ [op] @ w2)
          = parse n (render w0 t0 (items @ [(w1, op, w2, last_token t0 items)]) []))
   \<and> parse_interpret n ''5 + x'' = Inr 5
   \<and> parse_interpret n ''5 + '' = Inr 10"
proof -
  have total: "\<exists>t v. parse n s = Inr (Some t) \<and> interpret_expr t = Inr v"
    using parse_returns_tree [of n s] no_null_interpret by blast
  have ex: "parse_interpret n ''5 + x'' = Inr 5" "parse_interpret n ''5 + '' = Inr 10"
    by (simp_all add: parse_interpret_def interpret_ptr_def parse_eval_defs)
  have a: "whitespace w \<and> not_numeric c \<longrightarrow>
      parse n (w @ c # r) = Inr (Some (NumberExpression 0))"
    using parse_not_a_number [of w c n r] by simp
  have b: "tokenised w0 t0 items [] \<and> whitespace w1 \<and> op_char op \<and> whitespace w2
      \<and> not_numeric c \<longrightarrow>
      parse n (render w0 t0 items [] @ w1 @ [op] @ w2 @ c # r)
        = parse n (render w0 t0 (items @ [(w1, op, w2, ''0'')]) [])"
    using parse_bad_number [of w0 t0 items w1 op w2 c n r] by simp
  have c: "whitespace w \<longrightarrow> parse n w = Inr (Some (NumberExpression n))"
    using parse_blank [of w n] by simp
  have d: "tokenised w0 t0 items [] \<and> whitespace w1 \<and> op_char op \<and> whitespace w2 \<longrightarrow>
      parse n (render w0 t0 items [] @ w1 @ [op] @ w2)
        = parse n (render w0 t0 (items @ [(w1, op, w2, last_token t0 items)]) [])"
    using parse_trailing_operator [of w0 t0 items w1 op w2 n] by simp
  show ?thesis
    by (intro conjI) (rule total a b c d ex)+
qed

theorem parse_of_malformed_input_witness:
  "whitespace '' '' \<and> not_numeric CHR ''a''
   \<and> tokenised [] ''5'' [('' '', CHR ''+'', '' '', ''3'')] [] \<and> op_char CHR ''-''
   \<and> parse 0 '' abc'' = Inr (Some (NumberExpression 0))
   \<and> parse 0 ''5 + 3 - abc'' = parse 0 ''5 + 3 - 0''
   \<and> parse 0 '' '' = Inr (Some (NumberExpression 0))
   \<and> parse 0 ''5 + 3 - '' = parse 0 ''5 + 3 - 3''"
proof -
  have h: "whitespace '' ''" "not_numeric CHR ''a''"
      "tokenised [] ''5'' [('' '', CHR ''+'', '' '', ''3'')] []" "op_char CHR ''-''"
    by (simp_all add: input_defs not_numeric_def)
  show ?thesis
    using h
      parse_of_malformed_input [of 0 "[]" "'' ''" "CHR ''a''" "''bc''" "[]" "''5''"
        "[('' '', CHR ''+'', '' '', ''3'')]" "'' ''" "CHR ''-''" "'' ''"]
    by (simp add: render_def render_item_def last_token_def)
qed

text \<open>
  \<^verbatim>\<open>"5 + "\<close> evaluates to 10 and not to 5, and the empty string evaluates to what
  \<^verbatim>\<open>num\<close> started with (here 7), not to 0.
\<close>

theorem trailing_operator_counterexample:
  "parse_interpret 0 ''5 + '' = Inr 10
   \<and> parse_interpret 0 ''5 + '' \<noteq> Inr 5
   \<and> parse_interpret 7 [] = Inr 7
   \<and> parse_interpret 7 [] \<noteq> Inr 0"
  by (simp add: parse_interpret_def interpret_ptr_def parse_eval_defs)

end
